theory Spec2Isabelle
  imports Main "HOL-Library.Product_Lexorder"
begin

section \<open>The Soma cube SAT encoder (soma\_sat\_solver.py)\<close>

text \<open>
  A cell is a Python tuple of three unbounded integers. Tuples compare
  lexicographically, which is the order \<open>Product_Lexorder\<close> puts on products, so
  Python's \<open>sorted\<close> on a list of cells is \<open>sort\<close>.
\<close>

type_synonym cell = "int \<times> int \<times> int"

datatype py_error = IndexError

subsection \<open>Pieces\<close>

text \<open>
  The seven module-level pieces \<open>z, p, t, b, a, l, v\<close>. The one-letter names of the
  source are suffixed here, since a constant called \<open>a\<close> or \<open>z\<close> would capture
  the variables of every later statement.
\<close>

definition z_piece :: "cell list" where
  "z_piece = [(0, 0, 0), (1, 0, 0), (1, 1, 0), (2, 1, 0)]"

definition p_piece :: "cell list" where
  "p_piece = [(0, 0, 0), (0, 1, 0), (0, 1, 1), (1, 1, 0)]"

definition t_piece :: "cell list" where
  "t_piece = [(0, 0, 0), (0, 1, 0), (1, 1, 0), (0, 2, 0)]"

definition b_piece :: "cell list" where
  "b_piece = [(0, 0, 0), (1, 0, 0), (0, 1, 0), (0, 1, 1)]"

definition a_piece :: "cell list" where
  "a_piece = [(0, 0, 0), (0, 0, 1), (0, 1, 0), (1, 1, 0)]"

definition l_piece :: "cell list" where
  "l_piece = [(0, 0, 0), (1, 0, 0), (2, 0, 0), (0, 1, 0)]"

definition v_piece :: "cell list" where
  "v_piece = [(0, 0, 0), (1, 0, 0), (0, 1, 0)]"

definition pieces :: "cell list list" where
  "pieces = [z_piece, p_piece, t_piece, b_piece, a_piece, l_piece, v_piece]"

subsection \<open>Geometry kernel\<close>

definition rotate_x :: "cell list \<Rightarrow> cell list" where
  "rotate_x cubelets = map (\<lambda>(x, y, z). (x, z, - y)) cubelets"

definition rotate_y :: "cell list \<Rightarrow> cell list" where
  "rotate_y cubelets = map (\<lambda>(x, y, z). (z, y, - x)) cubelets"

definition rotate_z :: "cell list \<Rightarrow> cell list" where
  "rotate_z cubelets = map (\<lambda>(x, y, z). (- y, x, z)) cubelets"

definition identity :: "cell list \<Rightarrow> cell list" where
  "identity cubelets = cubelets"

subsection \<open>Orientation generator\<close>

text \<open>
  The list \<open>[identity, rotate_x, rotate_y, rotate_z]\<close> that each of the five nested
  loops of \<open>generate_rotations\<close> runs over.
\<close>

definition transforms :: "(cell list \<Rightarrow> cell list) list" where
  "transforms = [identity, rotate_x, rotate_y, rotate_z]"

text \<open>
  The five nested loops, outermost first, as the list of tuples
  \<open>(f_a, f_b, f_c, f_d, f_e)\<close> in the order the loop body meets them.
\<close>

type_synonym transform5 =
  "(cell list \<Rightarrow> cell list) \<times> (cell list \<Rightarrow> cell list) \<times> (cell list \<Rightarrow> cell list)
    \<times> (cell list \<Rightarrow> cell list) \<times> (cell list \<Rightarrow> cell list)"

definition sequences :: "transform5 list" where
  "sequences =
     [(f_a, f_b, f_c, f_d, f_e).
        f_a \<leftarrow> transforms, f_b \<leftarrow> transforms, f_c \<leftarrow> transforms,
        f_d \<leftarrow> transforms, f_e \<leftarrow> transforms]"

text \<open>
  Lines 35 to 38: sort the rotated piece, read its first cell into
  \<open>(min_x, min_y, min_z)\<close>, subtract that cell from every cell. Indexing the empty
  list raises \<open>IndexError\<close>.
\<close>

definition translate_sorted :: "cell list \<Rightarrow> py_error + cell list" where
  "translate_sorted rot_piece =
     (let rot_piece_sorted = sort rot_piece in
      case rot_piece_sorted of
        [] \<Rightarrow> Inl IndexError
      | (min_x, min_y, min_z) # _ \<Rightarrow>
          Inr (map (\<lambda>(x, y, z). (x - min_x, y - min_y, z - min_z)) rot_piece_sorted))"

text \<open>
  The loop of \<open>generate_rotations\<close> over the remaining sequences, carrying the list
  \<open>orientations\<close>; an exception leaves the loop and the function.
\<close>

fun rotations_loop ::
  "cell list \<Rightarrow> transform5 list \<Rightarrow> cell list list \<Rightarrow> py_error + cell list list" where
  "rotations_loop piece [] orientations = Inr orientations"
| "rotations_loop piece ((f_a, f_b, f_c, f_d, f_e) # rest) orientations =
     (case translate_sorted (f_a (f_b (f_c (f_d (f_e piece))))) of
        Inl e \<Rightarrow> Inl e
      | Inr trans_rot_piece \<Rightarrow>
          rotations_loop piece rest
            (if trans_rot_piece \<notin> set orientations
             then orientations @ [trans_rot_piece] else orientations))"

definition generate_rotations :: "cell list \<Rightarrow> py_error + cell list list" where
  "generate_rotations piece = rotations_loop piece sequences []"

subsection \<open>Exact-one encoder\<close>

text \<open>
  A clause is a list of non-zero integers, a negative one standing for the negated
  variable. \<open>exactly_one\<close> receives a list (its callers convert a set with
  \<open>list(...)\<close>) and indexes it in the two nested \<open>range\<close> loops.
\<close>

definition exactly_one :: "int list \<Rightarrow> int list list" where
  "exactly_one variables =
     (if variables = [] then []
      else variables #
           concat (map (\<lambda>i. map (\<lambda>j. [- (variables ! i), - (variables ! j)])
                                 [i + 1 ..< length variables])
                       [0 ..< length variables]))"

text \<open>
  \<open>generate_sat_instance\<close>, lines 116 to 124: the clauses of every piece group, in
  the order of the dictionary \<open>placements_by_piece\<close>, then those of every cell group,
  in the order of \<open>placements_by_cell\<close>. Both arguments are the dictionaries' values
  in that order, each already turned into a list.
\<close>

definition encode_groups :: "int list list \<Rightarrow> int list list \<Rightarrow> int list list" where
  "encode_groups piece_groups cell_groups =
     concat (map exactly_one piece_groups) @ concat (map exactly_one cell_groups)"

subsection \<open>Placement enumerator\<close>

text \<open>
  The module-level list \<open>orientations\<close>: \<open>generate_rotations\<close> of every piece, in
  order; the first exception, if any, ends the comprehension.
\<close>

fun rotations_of_all :: "cell list list \<Rightarrow> py_error + cell list list list" where
  "rotations_of_all [] = Inr []"
| "rotations_of_all (piece # rest) =
     (case generate_rotations piece of
        Inl e \<Rightarrow> Inl e
      | Inr os \<Rightarrow> (case rotations_of_all rest of Inl e \<Rightarrow> Inl e | Inr oss \<Rightarrow> Inr (os # oss)))"

definition orientations :: "py_error + cell list list list" where
  "orientations = rotations_of_all pieces"

definition coordinates :: "cell list" where
  "coordinates = [(x, y, z). x \<leftarrow> [0..2], y \<leftarrow> [0..2], z \<leftarrow> [0..2]]"

text \<open>
  The dictionaries of \<open>generate_placements\<close> are association lists in insertion
  order (the order Python iterates a dictionary in); a Python set of variables is a
  list without repetition, in insertion order. \<open>var_names\<close> keeps, for every
  variable, the four numbers that the f-string prints one after the other.
\<close>

type_synonym placement_key = "nat \<times> cell list"

record placement_state =
  placements :: "(placement_key \<times> int) list"
  placements_by_piece :: "(nat \<times> int list) list"
  placements_by_cell :: "(cell \<times> int list) list"
  var_names :: "(int \<times> (int \<times> int \<times> int \<times> int)) list"
  var_counter :: int

definition set_add :: "int list \<Rightarrow> int \<Rightarrow> int list" where
  "set_add s var = (if var \<in> set s then s else s @ [var])"

text \<open>
  \<open>placements_by_piece[piece].add(var)\<close> on the plain dictionary that line 67 fills
  with the keys \<open>0..6\<close>.
\<close>

definition piece_add :: "nat \<Rightarrow> int \<Rightarrow> (nat \<times> int list) list \<Rightarrow> (nat \<times> int list) list" where
  "piece_add piece var d = map (\<lambda>(k, s). if k = piece then (k, set_add s var) else (k, s)) d"

text \<open>
  \<open>placements_by_cell[cell].add(var)\<close> on the \<open>defaultdict(set)\<close>: a missing key
  is first inserted, at the end, with the empty set.
\<close>

fun cell_add :: "cell \<Rightarrow> int \<Rightarrow> (cell \<times> int list) list \<Rightarrow> (cell \<times> int list) list" where
  "cell_add cell var [] = [(cell, set_add [] var)]"
| "cell_add cell var ((k, s) # d) =
     (if k = cell then (k, set_add s var) # d else (k, s) # cell_add cell var d)"

definition in_volume :: "cell \<Rightarrow> bool" where
  "in_volume cell =
     (case cell of (c0, c1, c2) \<Rightarrow> 0 \<le> c0 \<and> c0 < 3 \<and> 0 \<le> c1 \<and> c1 < 3 \<and> 0 \<le> c2 \<and> c2 < 3)"

definition adjust :: "cell \<Rightarrow> cell list \<Rightarrow> cell \<Rightarrow> cell list" where
  "adjust anchor orient base =
     (case anchor of (a0, a1, a2) \<Rightarrow> case base of (b0, b1, b2) \<Rightarrow>
        sort (map (\<lambda>(o0, o1, o2). (a0 + o0 - b0, a1 + o1 - b1, a2 + o2 - b2)) orient))"

text \<open>The body of the innermost loop, lines 76 to 93.\<close>

definition place :: "placement_state \<Rightarrow> cell \<times> nat \<times> cell list \<times> cell \<Rightarrow> placement_state" where
  "place st it =
     (case it of (anchor, piece, orient, base) \<Rightarrow>
        let adjusted = adjust anchor orient base in
        if list_all in_volume adjusted then
          let placement_key = (piece, adjusted);
              (st1, var) =
                (case map_of (placements st) placement_key of
                   None \<Rightarrow>
                     (case anchor of (a0, a1, a2) \<Rightarrow>
                        (st\<lparr>placements := placements st @ [(placement_key, var_counter st)],
                            var_names := var_names st @
                              [(var_counter st, (a0 + 1, a1 + 1, a2 + 1, int piece + 1))],
                            var_counter := var_counter st + 1\<rparr>,
                         var_counter st))
                 | Some var \<Rightarrow> (st, var));
              st2 = st1\<lparr>placements_by_piece := piece_add piece var (placements_by_piece st1)\<rparr>
          in st2\<lparr>placements_by_cell := fold (\<lambda>cell d. cell_add cell var d) adjusted
                                            (placements_by_cell st2)\<rparr>
        else st)"

text \<open>
  The four nested loops of lines 72 to 75, as the list of the tuples
  \<open>(anchor, piece, orient, base)\<close> in the order the body meets them. The lists
  \<open>orientations\<close> and \<open>coordinates\<close> are globals of the module, arguments here.
\<close>

definition iterations :: "cell list list list \<Rightarrow> cell list \<Rightarrow> (cell \<times> nat \<times> cell list \<times> cell) list" where
  "iterations orients coords =
     [(anchor, piece, orient, base).
        anchor \<leftarrow> coords, piece \<leftarrow> [0..<7], orient \<leftarrow> orients ! piece, base \<leftarrow> orient]"

definition initial_state :: placement_state where
  "initial_state =
     \<lparr>placements = [], placements_by_piece = map (\<lambda>i. (i, [])) [0..<7],
      placements_by_cell = [], var_names = [], var_counter = 1\<rparr>"

text \<open>
  \<open>orientations[piece]\<close> raises \<open>IndexError\<close> when the list has fewer than seven
  entries and the loop over the anchors runs at all; the state built so far is then
  lost with the exception.
\<close>

definition generate_placements ::
  "cell list list list \<Rightarrow> cell list \<Rightarrow> py_error + placement_state" where
  "generate_placements orients coords =
     (if coords \<noteq> [] \<and> length orients < 7 then Inl IndexError
      else Inr (fold (\<lambda>it st. place st it) (iterations orients coords) initial_state))"

text \<open>The last component of the tuple returned on line 94.\<close>

definition num_vars :: "placement_state \<Rightarrow> int" where
  "num_vars st = var_counter st - 1"

text \<open>
  \<open>generate_sat_instance\<close> on the state \<open>generate_placements\<close> returned: the
  clauses, and the number of variables.
\<close>

definition generate_sat_instance :: "placement_state \<Rightarrow> int list list \<times> int" where
  "generate_sat_instance st =
     (encode_groups (map snd (placements_by_piece st)) (map snd (placements_by_cell st)),
      num_vars st)"

text \<open>The module as it runs: lines 43, 44 and 128.\<close>

definition soma_state :: "py_error + placement_state" where
  "soma_state =
     (case orientations of Inl e \<Rightarrow> Inl e | Inr os \<Rightarrow> generate_placements os coordinates)"

definition soma_instance :: "py_error + int list list \<times> int" where
  "soma_instance = (case soma_state of Inl e \<Rightarrow> Inl e | Inr st \<Rightarrow> Inr (generate_sat_instance st))"

subsection \<open>Truth of a clause under an assignment\<close>

definition lit_true :: "(int \<Rightarrow> bool) \<Rightarrow> int \<Rightarrow> bool" where
  "lit_true A lit = (if 0 < lit then A lit else \<not> A (- lit))"

definition clause_true :: "(int \<Rightarrow> bool) \<Rightarrow> int list \<Rightarrow> bool" where
  "clause_true A clause = list_ex (lit_true A) clause"

section \<open>The rotation group of the cube\<close>

text \<open>
  The specification compares the orientations that \<open>generate_rotations\<close> finds with
  the images of a piece under ``the cube's 24-element rotation group''. That group is
  defined here on its own, not from the code: the integer matrices whose three rows
  are signed unit vectors, pairwise orthogonal, with determinant 1. A matrix is the
  triple of its rows.
\<close>

type_synonym matrix = "cell \<times> cell \<times> cell"

definition dot :: "cell \<Rightarrow> cell \<Rightarrow> int" where
  "dot u w = (case u of (a, b, c) \<Rightarrow> case w of (x, y, z) \<Rightarrow> a * x + b * y + c * z)"

definition apply_matrix :: "matrix \<Rightarrow> cell \<Rightarrow> cell" where
  "apply_matrix m w = (case m of (r1, r2, r3) \<Rightarrow> (dot r1 w, dot r2 w, dot r3 w))"

definition det :: "matrix \<Rightarrow> int" where
  "det m = (case m of ((a, b, c), (d, e, f), (g, h, i)) \<Rightarrow>
     a * (e * i - f * h) - b * (d * i - f * g) + c * (d * h - e * g))"

definition unit_vectors :: "cell list" where
  "unit_vectors = [(1, 0, 0), (- 1, 0, 0), (0, 1, 0), (0, - 1, 0), (0, 0, 1), (0, 0, - 1)]"

definition cube_rotation_group :: "matrix list" where
  "cube_rotation_group =
     [(r1, r2, r3).
        r1 \<leftarrow> unit_vectors, r2 \<leftarrow> unit_vectors, r3 \<leftarrow> unit_vectors,
        dot r1 r2 = 0, dot r1 r3 = 0, dot r2 r3 = 0, det (r1, r2, r3) = 1]"

section \<open>Notions used in the statements and proofs\<close>

text \<open>The index pairs \<open>(i, j)\<close> that the two loops of \<open>exactly_one\<close> run through.\<close>

definition index_pairs :: "nat \<Rightarrow> (nat \<times> nat) list" where
  "index_pairs k = concat (map (\<lambda>i. map (Pair i) [i + 1 ..< k]) [0 ..< k])"

text \<open>
  Matrix product, the matrices of the four transforms, and for every element of the
  rotation group one product of five of them that equals it.
\<close>

definition columns :: "matrix \<Rightarrow> matrix" where
  "columns m = (case m of ((a, b, c), (d, e, f), (g, h, i)) \<Rightarrow> ((a, d, g), (b, e, h), (c, f, i)))"

definition mat_mul :: "matrix \<Rightarrow> matrix \<Rightarrow> matrix" where
  "mat_mul m n =
     (case m of (r1, r2, r3) \<Rightarrow> case columns n of (c1, c2, c3) \<Rightarrow>
        ((dot r1 c1, dot r1 c2, dot r1 c3),
         (dot r2 c1, dot r2 c2, dot r2 c3),
         (dot r3 c1, dot r3 c2, dot r3 c3)))"

definition gen_id :: matrix where "gen_id = ((1, 0, 0), (0, 1, 0), (0, 0, 1))"

definition gen_x :: matrix where "gen_x = ((1, 0, 0), (0, 0, 1), (0, - 1, 0))"

definition gen_y :: matrix where "gen_y = ((0, 0, 1), (0, 1, 0), (- 1, 0, 0))"

definition gen_z :: matrix where "gen_z = ((0, - 1, 0), (1, 0, 0), (0, 0, 1))"

definition generators :: "matrix list" where
  "generators = [gen_id, gen_x, gen_y, gen_z]"

definition mul5 :: "matrix \<times> matrix \<times> matrix \<times> matrix \<times> matrix \<Rightarrow> matrix" where
  "mul5 s = (case s of (m_a, m_b, m_c, m_d, m_e) \<Rightarrow>
     mat_mul m_a (mat_mul m_b (mat_mul m_c (mat_mul m_d m_e))))"

definition reaching_sequences :: "(matrix \<times> matrix \<times> matrix \<times> matrix \<times> matrix) list" where
  "reaching_sequences =
     [(gen_id, gen_id, gen_id, gen_id, gen_id), (gen_id, gen_id, gen_id, gen_x, gen_x),
      (gen_id, gen_id, gen_id, gen_id, gen_x), (gen_id, gen_id, gen_x, gen_x, gen_x),
      (gen_id, gen_id, gen_id, gen_y, gen_y), (gen_id, gen_id, gen_id, gen_z, gen_z),
      (gen_id, gen_id, gen_x, gen_z, gen_z), (gen_id, gen_id, gen_x, gen_y, gen_y),
      (gen_id, gen_id, gen_y, gen_y, gen_z), (gen_id, gen_id, gen_z, gen_z, gen_z),
      (gen_id, gen_x, gen_z, gen_z, gen_z), (gen_id, gen_x, gen_y, gen_y, gen_z),
      (gen_id, gen_id, gen_id, gen_id, gen_z), (gen_id, gen_id, gen_x, gen_x, gen_z),
      (gen_id, gen_id, gen_id, gen_x, gen_z), (gen_id, gen_x, gen_x, gen_x, gen_z),
      (gen_id, gen_id, gen_id, gen_y, gen_z), (gen_id, gen_id, gen_id, gen_x, gen_y),
      (gen_id, gen_id, gen_id, gen_id, gen_y), (gen_id, gen_id, gen_x, gen_x, gen_y),
      (gen_id, gen_id, gen_id, gen_z, gen_x), (gen_id, gen_x, gen_x, gen_z, gen_x),
      (gen_id, gen_id, gen_y, gen_y, gen_y), (gen_id, gen_id, gen_x, gen_z, gen_x)]"

text \<open>
  The action of a matrix on a list of cells, the composition that line 34 applies to
  the piece, and the result of lines 35 to 38 on a non-empty list.
\<close>

definition act :: "matrix \<Rightarrow> cell list \<Rightarrow> cell list" where
  "act m cubelets = map (apply_matrix m) cubelets"

definition compose5 :: "transform5 \<Rightarrow> cell list \<Rightarrow> cell list" where
  "compose5 s piece = (case s of (f_a, f_b, f_c, f_d, f_e) \<Rightarrow> f_a (f_b (f_c (f_d (f_e piece)))))"

definition shift :: "cell \<Rightarrow> cell \<Rightarrow> cell" where
  "shift m c = (case m of (min_x, min_y, min_z) \<Rightarrow> case c of (x, y, z) \<Rightarrow>
     (x - min_x, y - min_y, z - min_z))"

definition canonical :: "cell list \<Rightarrow> cell list" where
  "canonical cs = map (shift (hd (sort cs))) (sort cs)"

text \<open>
  The value a dictionary of sets holds under a key, empty when the key is absent, and
  the variables that the mapping \<open>placements\<close> binds to the placements of a piece,
  and to the placements that occupy a cell.
\<close>

definition grp :: "('k \<times> int list) list \<Rightarrow> 'k \<Rightarrow> int list" where
  "grp d k = (case map_of d k of None \<Rightarrow> [] | Some s \<Rightarrow> s)"

definition piece_vars :: "(placement_key \<times> int) list \<Rightarrow> nat \<Rightarrow> int set" where
  "piece_vars P piece = {var. \<exists>cells. ((piece, cells), var) \<in> set P}"

definition cell_vars :: "(placement_key \<times> int) list \<Rightarrow> cell \<Rightarrow> int set" where
  "cell_vars P cell = {var. \<exists>piece cells. ((piece, cells), var) \<in> set P \<and> cell \<in> set cells}"

text \<open>
  The invariant of the loop of \<open>generate_placements\<close>: the variables handed out so far
  are \<open>1, \<dots>, var_counter - 1\<close> in the order of insertion, every key is bound once,
  holds a piece index below seven and cells of the volume only, and the two
  dictionaries of sets hold, per piece and per cell, the variables of the placements
  recorded.
\<close>

definition inv :: "placement_state \<Rightarrow> bool" where
  "inv st \<longleftrightarrow>
     1 \<le> var_counter st \<and>
     distinct (map fst (placements st)) \<and>
     map snd (placements st) = [1 .. var_counter st - 1] \<and>
     (\<forall>k \<in> fst ` set (placements st). fst k < 7 \<and> list_all in_volume (snd k)) \<and>
     map fst (placements_by_piece st) = [0 ..< 7] \<and>
     (\<forall>piece. set (grp (placements_by_piece st) piece) = piece_vars (placements st) piece) \<and>
     (\<forall>e \<in> set (placements_by_piece st). distinct (snd e)) \<and>
     distinct (map fst (placements_by_cell st)) \<and>
     (\<forall>cell. set (grp (placements_by_cell st) cell) = cell_vars (placements st) cell) \<and>
     (\<forall>e \<in> set (placements_by_cell st). snd e \<noteq> [] \<and> distinct (snd e))"

section \<open>Properties\<close>

subsection \<open>The axis rotations\<close>

lemma rotate_x_four: "rotate_x (rotate_x (rotate_x (rotate_x cubelets))) = cubelets"
  by (simp add: rotate_x_def comp_def case_prod_unfold)

lemma rotate_y_four: "rotate_y (rotate_y (rotate_y (rotate_y cubelets))) = cubelets"
  by (simp add: rotate_y_def comp_def case_prod_unfold)

lemma rotate_z_four: "rotate_z (rotate_z (rotate_z (rotate_z cubelets))) = cubelets"
  by (simp add: rotate_z_def comp_def case_prod_unfold)

text \<open>
  C10. Each of \<open>rotate_x\<close>, \<open>rotate_y\<close> and \<open>rotate_z\<close> has order four: applied
  four times in succession to any list of integer triples, it returns the list it
  was given.
\<close>

theorem rotations_order_four:
  "rotate_x (rotate_x (rotate_x (rotate_x cubelets))) = cubelets \<and>
   rotate_y (rotate_y (rotate_y (rotate_y cubelets))) = cubelets \<and>
   rotate_z (rotate_z (rotate_z (rotate_z cubelets))) = cubelets"
  by (simp add: rotate_x_four rotate_y_four rotate_z_four)

subsection \<open>The shape of the exact-one clauses\<close>

lemma set_index_pairs: "set (index_pairs k) = {(i, j). i < j \<and> j < k}"
  by (force simp: index_pairs_def)

lemma distinct_concat_Pair:
  "distinct xs \<Longrightarrow> (\<And>x. distinct (g x)) \<Longrightarrow>
   distinct (concat (map (\<lambda>i. map (Pair i) (g i)) xs))"
  by (induction xs) (auto simp: distinct_map inj_on_def)

lemma distinct_index_pairs: "distinct (index_pairs k)"
  unfolding index_pairs_def by (rule distinct_concat_Pair) simp_all

lemma sum_descending: "(\<Sum>i<k. k - Suc i) = k * (k - 1) div 2"
proof -
  have "(\<Sum>i<k. k - Suc i) = (\<Sum>i<k. i)"
    by (rule sum.nat_diff_reindex)
  also have "\<dots> = k * (k - 1) div 2"
    using Sum_Ico_nat [of 0 k] by (simp add: atLeast0LessThan)
  finally show ?thesis .
qed

lemma length_index_pairs: "length (index_pairs k) = k * (k - 1) div 2"
proof -
  have "length (index_pairs k) = (\<Sum>i\<leftarrow>[0..<k]. k - Suc i)"
    by (simp add: index_pairs_def length_concat comp_def)
  also have "\<dots> = (\<Sum>i<k. k - Suc i)"
    by (simp add: interv_sum_list_conv_sum_set_nat atLeast0LessThan)
  finally show ?thesis by (simp only: sum_descending)
qed

lemma exactly_one_pairs:
  "variables \<noteq> [] \<Longrightarrow>
   exactly_one variables =
     variables #
     map (\<lambda>(i, j). [- (variables ! i), - (variables ! j)]) (index_pairs (length variables))"
  by (simp add: exactly_one_def index_pairs_def map_concat comp_def)

text \<open>
  C5. For a non-empty list of \<open>k\<close> variables, \<open>exactly_one\<close> returns the clause of
  all \<open>k\<close> variables, as they were given, followed by one binary clause
  \<open>[- variables[i], - variables[j]]\<close> for every pair of positions \<open>i < j < k\<close>: each
  pair once, \<open>k * (k - 1) / 2\<close> binary clauses in all.
\<close>

theorem exactly_one_shape:
  "variables \<noteq> [] \<Longrightarrow>
   \<exists>pairs. exactly_one variables =
       variables # map (\<lambda>(i, j). [- (variables ! i), - (variables ! j)]) pairs
     \<and> distinct pairs
     \<and> set pairs = {(i, j). i < j \<and> j < length variables}
     \<and> length pairs = length variables * (length variables - 1) div 2"
  using exactly_one_pairs [of variables] set_index_pairs distinct_index_pairs length_index_pairs
  by blast

theorem exactly_one_shape_witness:
  "[4, 7, 9 :: int] \<noteq> [] \<and>
   (\<exists>pairs. exactly_one [4, 7, 9] =
       [4, 7, 9] # map (\<lambda>(i, j). [- ([4, 7, 9] ! i), - ([4, 7, 9] ! j)]) pairs
     \<and> distinct pairs
     \<and> set pairs = {(i, j). i < j \<and> j < length [4, 7, 9 :: int]}
     \<and> length pairs = length [4, 7, 9 :: int] * (length [4, 7, 9 :: int] - 1) div 2)"
  using exactly_one_shape [of "[4, 7, 9]"] by simp

subsection \<open>A group without variables\<close>

text \<open>
  C2, as stated, asks for a failure when a group handed to the encoder has no
  variable. The encoder returns the empty clause list for it, and the clauses of the
  other groups are produced as usual.
\<close>

theorem empty_group_counterexample:
  "exactly_one [] = [] \<and>
   encode_groups [[], [1, 2]] [[3], []] = [[1, 2], [- 1, - 2], [3]]"
  by (simp add: exactly_one_def encode_groups_def upt_rec)

text \<open>
  C2, amended. A group with no variable contributes no clause and raises nothing:
  \<open>exactly_one\<close> of the empty list is the empty list, and the formula is the one
  that the remaining piece groups and cell groups give.
\<close>

theorem empty_group_skipped:
  "exactly_one [] = [] \<and>
   encode_groups (ps @ [] # ps') cs = encode_groups (ps @ ps') cs \<and>
   encode_groups ps (cs @ [] # cs') = encode_groups ps (cs @ cs')"
  by (simp add: exactly_one_def encode_groups_def)

subsection \<open>The transforms as rotation matrices\<close>

lemma cube_rotation_group_list:
  "cube_rotation_group =
     [((1, 0, 0), (0, 1, 0), (0, 0, 1)),
      ((1, 0, 0), (0, - 1, 0), (0, 0, - 1)),
      ((1, 0, 0), (0, 0, 1), (0, - 1, 0)),
      ((1, 0, 0), (0, 0, - 1), (0, 1, 0)),
      ((- 1, 0, 0), (0, 1, 0), (0, 0, - 1)),
      ((- 1, 0, 0), (0, - 1, 0), (0, 0, 1)),
      ((- 1, 0, 0), (0, 0, 1), (0, 1, 0)),
      ((- 1, 0, 0), (0, 0, - 1), (0, - 1, 0)),
      ((0, 1, 0), (1, 0, 0), (0, 0, - 1)),
      ((0, 1, 0), (- 1, 0, 0), (0, 0, 1)),
      ((0, 1, 0), (0, 0, 1), (1, 0, 0)),
      ((0, 1, 0), (0, 0, - 1), (- 1, 0, 0)),
      ((0, - 1, 0), (1, 0, 0), (0, 0, 1)),
      ((0, - 1, 0), (- 1, 0, 0), (0, 0, - 1)),
      ((0, - 1, 0), (0, 0, 1), (- 1, 0, 0)),
      ((0, - 1, 0), (0, 0, - 1), (1, 0, 0)),
      ((0, 0, 1), (1, 0, 0), (0, 1, 0)),
      ((0, 0, 1), (- 1, 0, 0), (0, - 1, 0)),
      ((0, 0, 1), (0, 1, 0), (- 1, 0, 0)),
      ((0, 0, 1), (0, - 1, 0), (1, 0, 0)),
      ((0, 0, - 1), (1, 0, 0), (0, - 1, 0)),
      ((0, 0, - 1), (- 1, 0, 0), (0, 1, 0)),
      ((0, 0, - 1), (0, 1, 0), (1, 0, 0)),
      ((0, 0, - 1), (0, - 1, 0), (- 1, 0, 0))]"
  by (simp add: cube_rotation_group_def unit_vectors_def dot_def det_def)

lemma apply_matrix_gen_id: "apply_matrix gen_id = (\<lambda>w. w)"
  by (rule ext) (simp add: apply_matrix_def dot_def gen_id_def split: prod.splits)

lemma identity_act: "identity = act gen_id"
  by (rule ext) (simp add: identity_def act_def apply_matrix_gen_id)

lemma rotate_x_act: "rotate_x = act gen_x"
  by (rule ext) (simp add: rotate_x_def act_def apply_matrix_def dot_def gen_x_def case_prod_unfold)

lemma rotate_y_act: "rotate_y = act gen_y"
  by (rule ext) (simp add: rotate_y_def act_def apply_matrix_def dot_def gen_y_def case_prod_unfold)

lemma rotate_z_act: "rotate_z = act gen_z"
  by (rule ext) (simp add: rotate_z_def act_def apply_matrix_def dot_def gen_z_def case_prod_unfold)

lemma transforms_act: "transforms = map act generators"
  by (simp add: transforms_def generators_def identity_act rotate_x_act rotate_y_act rotate_z_act)

lemma apply_matrix_mul: "apply_matrix a (apply_matrix b w) = apply_matrix (mat_mul a b) w"
  by (cases a, cases b, cases w)
     (auto simp: apply_matrix_def mat_mul_def dot_def columns_def algebra_simps)

lemma act_mul: "act a (act b cubelets) = act (mat_mul a b) cubelets"
  by (simp add: act_def apply_matrix_mul)

lemma mat_mul_assoc: "mat_mul (mat_mul a b) c = mat_mul a (mat_mul b c)"
  by (cases a, cases b, cases c)
     (auto simp: mat_mul_def dot_def columns_def algebra_simps)

lemma compose5_act:
  "compose5 (act m_a, act m_b, act m_c, act m_d, act m_e) piece =
   act (mul5 (m_a, m_b, m_c, m_d, m_e)) piece"
  by (simp add: compose5_def mul5_def act_mul mat_mul_assoc)

lemma set_sequences:
  "set sequences =
     {(f_a, f_b, f_c, f_d, f_e).
        f_a \<in> set transforms \<and> f_b \<in> set transforms \<and> f_c \<in> set transforms \<and>
        f_d \<in> set transforms \<and> f_e \<in> set transforms}"
  by (auto simp: sequences_def image_iff)

lemma length_sequences: "length sequences = 1024"
  by (simp add: sequences_def transforms_def)

lemma closed_x:
  "list_all (\<lambda>m. mat_mul gen_x m \<in> set cube_rotation_group) cube_rotation_group"
  unfolding cube_rotation_group_list by code_simp

lemma closed_y:
  "list_all (\<lambda>m. mat_mul gen_y m \<in> set cube_rotation_group) cube_rotation_group"
  unfolding cube_rotation_group_list by code_simp

lemma closed_z:
  "list_all (\<lambda>m. mat_mul gen_z m \<in> set cube_rotation_group) cube_rotation_group"
  unfolding cube_rotation_group_list by code_simp

lemma mat_mul_gen_id: "mat_mul gen_id m = m"
  by (cases m) (auto simp: mat_mul_def dot_def columns_def gen_id_def)

lemma generator_closed:
  "g \<in> set generators \<Longrightarrow> m \<in> set cube_rotation_group \<Longrightarrow>
   mat_mul g m \<in> set cube_rotation_group"
  using closed_x closed_y closed_z
  by (auto simp: generators_def list_all_iff mat_mul_gen_id)

lemma generator_in_group: "g \<in> set generators \<Longrightarrow> g \<in> set cube_rotation_group"
  unfolding cube_rotation_group_list generators_def gen_id_def gen_x_def gen_y_def gen_z_def
  by auto

lemma mul5_in_group:
  "m_a \<in> set generators \<Longrightarrow> m_b \<in> set generators \<Longrightarrow> m_c \<in> set generators \<Longrightarrow>
   m_d \<in> set generators \<Longrightarrow> m_e \<in> set generators \<Longrightarrow>
   mul5 (m_a, m_b, m_c, m_d, m_e) \<in> set cube_rotation_group"
  by (simp add: mul5_def generator_closed generator_in_group)

lemma reaching: "map mul5 reaching_sequences = cube_rotation_group"
  unfolding cube_rotation_group_list by code_simp

lemma reaching_generators:
  "list_all (\<lambda>(m_a, m_b, m_c, m_d, m_e).
      m_a \<in> set generators \<and> m_b \<in> set generators \<and> m_c \<in> set generators \<and>
      m_d \<in> set generators \<and> m_e \<in> set generators) reaching_sequences"
  by (simp add: reaching_sequences_def generators_def)

lemma sequence_is_rotation:
  assumes "s \<in> set sequences"
  shows "\<exists>m \<in> set cube_rotation_group. compose5 s = act m"
proof -
  obtain f_a f_b f_c f_d f_e where s: "s = (f_a, f_b, f_c, f_d, f_e)"
    by (cases s) auto
  with assms have "f_a \<in> set transforms" "f_b \<in> set transforms" "f_c \<in> set transforms"
    "f_d \<in> set transforms" "f_e \<in> set transforms"
    by (auto simp: set_sequences)
  then obtain m_a m_b m_c m_d m_e where
    m: "m_a \<in> set generators" "m_b \<in> set generators" "m_c \<in> set generators"
       "m_d \<in> set generators" "m_e \<in> set generators"
    and f: "f_a = act m_a" "f_b = act m_b" "f_c = act m_c" "f_d = act m_d" "f_e = act m_e"
    unfolding transforms_act by auto
  have "compose5 s = act (mul5 (m_a, m_b, m_c, m_d, m_e))"
    by (rule ext) (simp add: s f compose5_act)
  with mul5_in_group [OF m] show ?thesis by blast
qed

lemma rotation_is_sequence:
  assumes "m \<in> set cube_rotation_group"
  shows "\<exists>s \<in> set sequences. compose5 s = act m"
proof -
  from assms obtain r where r: "r \<in> set reaching_sequences" and m: "m = mul5 r"
    using reaching by (metis (no_types) image_iff list.set_map)
  obtain m_a m_b m_c m_d m_e where rr: "r = (m_a, m_b, m_c, m_d, m_e)"
    by (cases r) auto
  from r rr reaching_generators have g:
    "m_a \<in> set generators" "m_b \<in> set generators" "m_c \<in> set generators"
    "m_d \<in> set generators" "m_e \<in> set generators"
    by (auto simp: list_all_iff)
  let ?s = "(act m_a, act m_b, act m_c, act m_d, act m_e)"
  from g have "?s \<in> set sequences"
    by (simp add: set_sequences transforms_act)
  moreover have "compose5 ?s = act m"
    by (rule ext) (simp add: compose5_act m rr)
  ultimately show ?thesis by blast
qed

lemma sequences_reach_group: "compose5 ` set sequences = act ` set cube_rotation_group"
proof (rule set_eqI, rule iffI)
  fix f assume "f \<in> compose5 ` set sequences"
  then obtain s where "s \<in> set sequences" "f = compose5 s" by blast
  with sequence_is_rotation [of s] show "f \<in> act ` set cube_rotation_group"
    by (metis image_eqI)
next
  fix f assume "f \<in> act ` set cube_rotation_group"
  then obtain m where "m \<in> set cube_rotation_group" "f = act m" by auto
  with rotation_is_sequence [of m] show "f \<in> compose5 ` set sequences"
    by (metis image_eqI)
qed

lemma translate_sorted_Nil: "translate_sorted [] = Inl IndexError"
  by (simp add: translate_sorted_def)

lemma sort_eq_Nil: "sort cs = [] \<longleftrightarrow> cs = []"
  by (metis length_sort length_0_conv)

lemma translate_sorted_canonical: "cs \<noteq> [] \<Longrightarrow> translate_sorted cs = Inr (canonical cs)"
proof -
  assume "cs \<noteq> []"
  then obtain m rest where s: "sort cs = m # rest"
    by (cases "sort cs") (auto simp: sort_eq_Nil)
  obtain min_x min_y min_z where m: "m = (min_x, min_y, min_z)" by (cases m) auto
  have "(\<lambda>(x, y, z). (x - min_x, y - min_y, z - min_z)) = shift m"
    by (rule ext) (simp add: shift_def m split: prod.splits)
  then show ?thesis
    by (simp add: translate_sorted_def canonical_def s m shift_def)
qed

lemma shift_mono: "a \<le> b \<Longrightarrow> shift m a \<le> shift m b"
  by (cases a, cases b, cases m) (auto simp: shift_def)

lemma shift_inj: "inj (shift m)"
  by (rule injI) (auto simp: shift_def split: prod.splits)

lemma shift_self: "shift m m = (0, 0, 0)"
  by (cases m) (simp add: shift_def)

lemma canonical_nonempty: "cs \<noteq> [] \<Longrightarrow> canonical cs \<noteq> []"
  by (simp add: canonical_def sort_eq_Nil)

lemma canonical_hd: "cs \<noteq> [] \<Longrightarrow> hd (canonical cs) = (0, 0, 0)"
  by (simp add: canonical_def sort_eq_Nil hd_map shift_self)

lemma canonical_sorted: "sorted (canonical cs)"
proof -
  have "sorted (sort cs)" by simp
  then have "sorted_wrt (\<lambda>a b. shift (hd (sort cs)) a \<le> shift (hd (sort cs)) b) (sort cs)"
    by (rule sorted_wrt_mono_rel [rotated]) (simp add: shift_mono)
  then show ?thesis
    by (simp add: canonical_def sorted_map)
qed

lemma canonical_distinct: "distinct cs \<Longrightarrow> distinct (canonical cs)"
  by (simp add: canonical_def distinct_map inj_on_subset [OF shift_inj])

lemma canonical_length: "length (canonical cs) = length cs"
  by (simp add: canonical_def)

lemma canonical_lower: "cs \<noteq> [] \<Longrightarrow> c \<in> set (canonical cs) \<Longrightarrow> (0, 0, 0) \<le> c"
proof -
  assume ne: "cs \<noteq> []" and c: "c \<in> set (canonical cs)"
  from ne obtain t ts where t: "canonical cs = t # ts"
    by (cases "canonical cs") (auto dest: canonical_nonempty)
  with canonical_hd [OF ne] have "t = (0, 0, 0)" by simp
  with canonical_sorted [of cs] t c show ?thesis by auto
qed

lemma rotations_loop_result:
  "\<forall>s \<in> set ss. compose5 s piece \<noteq> [] \<Longrightarrow>
   \<exists>os. rotations_loop piece ss acc = Inr os \<and>
        set os = set acc \<union> (\<lambda>s. canonical (compose5 s piece)) ` set ss \<and>
        (distinct acc \<longrightarrow> distinct os)"
proof (induction ss arbitrary: acc)
  case Nil
  then show ?case by simp
next
  case (Cons s ss)
  obtain f_a f_b f_c f_d f_e where s: "s = (f_a, f_b, f_c, f_d, f_e)"
    by (cases s) auto
  let ?t = "canonical (compose5 s piece)"
  let ?acc = "if ?t \<notin> set acc then acc @ [?t] else acc"
  from Cons.prems have ne: "compose5 s piece \<noteq> []" and rest: "\<forall>s \<in> set ss. compose5 s piece \<noteq> []"
    by simp_all
  have step: "rotations_loop piece (s # ss) acc = rotations_loop piece ss ?acc"
    using translate_sorted_canonical [OF ne] by (simp add: s compose5_def)
  from Cons.IH [OF rest, of ?acc] obtain os where
    os: "rotations_loop piece ss ?acc = Inr os"
        "set os = set ?acc \<union> (\<lambda>s. canonical (compose5 s piece)) ` set ss"
        "distinct ?acc \<longrightarrow> distinct os"
    by blast
  have "set os = set acc \<union> (\<lambda>s. canonical (compose5 s piece)) ` set (s # ss)"
    using os(2) by auto
  moreover have "distinct acc \<longrightarrow> distinct os"
    using os(3) by auto
  ultimately show ?case using step os(1) by simp
qed

lemma act_nonempty: "piece \<noteq> [] \<Longrightarrow> act m piece \<noteq> []"
  by (simp add: act_def)

lemma compose5_nonempty: "s \<in> set sequences \<Longrightarrow> piece \<noteq> [] \<Longrightarrow> compose5 s piece \<noteq> []"
  using sequence_is_rotation [of s] by (auto simp: act_nonempty)

lemma generate_rotations_result:
  assumes "piece \<noteq> []"
  shows "\<exists>os. generate_rotations piece = Inr os \<and>
          set os = (\<lambda>s. canonical (compose5 s piece)) ` set sequences \<and> distinct os"
proof -
  have "\<forall>s \<in> set sequences. compose5 s piece \<noteq> []"
    using assms by (simp add: compose5_nonempty)
  from rotations_loop_result [OF this, of "[]"] show ?thesis
    by (simp add: generate_rotations_def)
qed

lemma generate_rotations_empty: "generate_rotations [] = Inl IndexError"
  by (simp add: generate_rotations_def sequences_def transforms_def identity_def
      translate_sorted_Nil)

lemma canonical_images:
  "(\<lambda>s. canonical (compose5 s piece)) ` set sequences =
   (\<lambda>m. canonical (act m piece)) ` set cube_rotation_group"
proof -
  have "(\<lambda>s. canonical (compose5 s piece)) ` set sequences =
        (\<lambda>f. canonical (f piece)) ` (compose5 ` set sequences)"
    by (simp add: image_image)
  also have "\<dots> = (\<lambda>f. canonical (f piece)) ` (act ` set cube_rotation_group)"
    by (simp only: sequences_reach_group)
  also have "\<dots> = (\<lambda>m. canonical (act m piece)) ` set cube_rotation_group"
    by (simp add: image_image)
  finally show ?thesis .
qed

lemma length_cube_rotation_group: "length cube_rotation_group = 24"
  by (simp add: cube_rotation_group_list)

lemma distinct_cube_rotation_group: "distinct cube_rotation_group"
  by (simp add: cube_rotation_group_list)

lemma transform_distinct: "f \<in> set transforms \<Longrightarrow> distinct cs \<Longrightarrow> distinct (f cs)"
  by (auto simp: transforms_def identity_def rotate_x_def rotate_y_def rotate_z_def
      distinct_map inj_on_def)

lemma compose5_distinct:
  assumes "s \<in> set sequences" "distinct piece"
  shows "distinct (compose5 s piece)"
proof -
  obtain f_a f_b f_c f_d f_e where s: "s = (f_a, f_b, f_c, f_d, f_e)"
    by (cases s) auto
  with assms(1) have "f_a \<in> set transforms" "f_b \<in> set transforms" "f_c \<in> set transforms"
    "f_d \<in> set transforms" "f_e \<in> set transforms"
    by (auto simp: set_sequences)
  with assms(2) show ?thesis
    by (simp add: s compose5_def transform_distinct)
qed

lemma compose5_unfold:
  "compose5 = (\<lambda>(f_a, f_b, f_c, f_d, f_e). f_a \<circ> f_b \<circ> f_c \<circ> f_d \<circ> f_e)"
  by (rule ext, rule ext) (simp add: compose5_def split: prod.splits)

lemma act_unfold: "act = (\<lambda>m cubelets. map (apply_matrix m) cubelets)"
  by (rule ext, rule ext) (simp add: act_def)

subsection \<open>The orientations of a piece\<close>

text \<open>
  C1, as stated, says that every canonical orientation has minimum 0 along each of the
  three axes. Line 36 takes all three offsets from the first cell of the sorted list,
  the lexicographically least one, so only the first coordinate is sure to be
  minimal there. The second sequence of the loop, a single \<open>rotate_x\<close>, turns the
  piece \<open>z\<close> into an orientation with third coordinate \<open>-1\<close>.
\<close>

theorem negative_coordinate_counterexample:
  "(case generate_rotations z_piece of
      Inl e \<Rightarrow> False
    | Inr os \<Rightarrow> [(0, 0, 0), (1, 0, - 1), (1, 0, 0), (2, 0, - 1)] \<in> set os)"
proof -
  have ne: "z_piece \<noteq> []" by (simp add: z_piece_def)
  from generate_rotations_result [OF ne] obtain os where
    os: "generate_rotations z_piece = Inr os"
        "set os = (\<lambda>s. canonical (compose5 s z_piece)) ` set sequences"
    by blast
  have "(identity, identity, identity, identity, rotate_x) \<in> set sequences"
    by (simp add: set_sequences transforms_def)
  moreover have "canonical (compose5 (identity, identity, identity, identity, rotate_x) z_piece) =
      [(0, 0, 0), (1, 0, - 1), (1, 0, 0), (2, 0, - 1)]"
    by (simp add: compose5_def identity_def rotate_x_def z_piece_def canonical_def shift_def)
  ultimately have "[(0, 0, 0), (1, 0, - 1), (1, 0, 0), (2, 0, - 1)] \<in> set os"
    unfolding os(2) by (metis (no_types, lifting) image_eqI)
  with os(1) show ?thesis by simp
qed

text \<open>
  C1, amended. For every non-empty piece \<open>generate_rotations\<close> returns, and every
  orientation it returns is a non-empty list of cells in ascending lexicographic
  order whose first cell is \<open>(0, 0, 0)\<close>: every cell is lexicographically at least
  \<open>(0, 0, 0)\<close>, so its first coordinate is at least 0 and the minimum of the first
  coordinate is 0. Nothing is said of the second and third coordinates.
\<close>

theorem canonical_first_cell_origin:
  "piece \<noteq> [] \<Longrightarrow>
   \<exists>os. generate_rotations piece = Inr os \<and>
        (\<forall>orient \<in> set os.
           orient \<noteq> [] \<and> sorted orient \<and> hd orient = (0, 0, 0) \<and>
           (\<forall>c \<in> set orient. (0, 0, 0) \<le> c \<and> 0 \<le> fst c))"
proof -
  assume ne: "piece \<noteq> []"
  from generate_rotations_result [OF ne] obtain os where
    os: "generate_rotations piece = Inr os"
        "set os = (\<lambda>s. canonical (compose5 s piece)) ` set sequences"
    by blast
  have "orient \<noteq> [] \<and> sorted orient \<and> hd orient = (0, 0, 0) \<and>
        (\<forall>c \<in> set orient. (0, 0, 0) \<le> c \<and> 0 \<le> fst c)" if "orient \<in> set os" for orient
  proof -
    from that os(2) obtain s where s: "s \<in> set sequences" "orient = canonical (compose5 s piece)"
      by auto
    have c: "compose5 s piece \<noteq> []" using s(1) ne by (rule compose5_nonempty)
    have "(0, 0, 0) \<le> c \<and> 0 \<le> fst c" if "c \<in> set orient" for c
    proof -
      from canonical_lower [OF c] that s(2) have "(0, 0, 0) \<le> c" by simp
      then show ?thesis by (cases c) auto
    qed
    then show ?thesis
      using canonical_nonempty [OF c] canonical_hd [OF c] canonical_sorted s(2) by simp
  qed
  with os(1) show ?thesis by blast
qed

theorem canonical_first_cell_origin_witness:
  "v_piece \<noteq> [] \<and>
   (\<exists>os. generate_rotations v_piece = Inr os \<and>
        (\<forall>orient \<in> set os.
           orient \<noteq> [] \<and> sorted orient \<and> hd orient = (0, 0, 0) \<and>
           (\<forall>c \<in> set orient. (0, 0, 0) \<le> c \<and> 0 \<le> fst c)))"
  using canonical_first_cell_origin [of v_piece] by (simp add: v_piece_def)

text \<open>
  C3. The 1024 sequences of five transforms compose to exactly the 24 rotations of the
  cube, each of them reached at least once; hence, for a non-empty piece, the
  orientations that \<open>generate_rotations\<close> returns are exactly the results of lines 35
  to 38 on the images of the piece under the 24 rotations.
\<close>

theorem sequences_reach_rotation_group:
  "piece \<noteq> [] \<Longrightarrow>
   length sequences = 1024 \<and> length cube_rotation_group = 24 \<and> distinct cube_rotation_group \<and>
   (\<lambda>(f_a, f_b, f_c, f_d, f_e). f_a \<circ> f_b \<circ> f_c \<circ> f_d \<circ> f_e) ` set sequences =
     (\<lambda>m cubelets. map (apply_matrix m) cubelets) ` set cube_rotation_group \<and>
   (\<exists>os. generate_rotations piece = Inr os \<and>
      Inr ` set os =
        (\<lambda>m. translate_sorted (map (apply_matrix m) piece)) ` set cube_rotation_group)"
proof -
  assume ne: "piece \<noteq> []"
  from generate_rotations_result [OF ne] obtain os where
    os: "generate_rotations piece = Inr os"
        "set os = (\<lambda>s. canonical (compose5 s piece)) ` set sequences"
    by blast
  have "Inr ` set os = (\<lambda>m. Inr (canonical (act m piece))) ` set cube_rotation_group"
    by (simp add: os(2) canonical_images image_image)
  also have "\<dots> = (\<lambda>m. translate_sorted (act m piece)) ` set cube_rotation_group"
    by (rule image_cong) (simp_all add: translate_sorted_canonical act_nonempty ne)
  finally have "Inr ` set os =
      (\<lambda>m. translate_sorted (map (apply_matrix m) piece)) ` set cube_rotation_group"
    by (simp add: act_def)
  moreover have "(\<lambda>(f_a, f_b, f_c, f_d, f_e). f_a \<circ> f_b \<circ> f_c \<circ> f_d \<circ> f_e) ` set sequences =
     (\<lambda>m cubelets. map (apply_matrix m) cubelets) ` set cube_rotation_group"
    using sequences_reach_group by (simp only: compose5_unfold act_unfold)
  ultimately show ?thesis
    using os(1) length_sequences length_cube_rotation_group distinct_cube_rotation_group
    by blast
qed

theorem sequences_reach_rotation_group_witness:
  "l_piece \<noteq> [] \<and>
   length sequences = 1024 \<and> length cube_rotation_group = 24 \<and> distinct cube_rotation_group \<and>
   (\<lambda>(f_a, f_b, f_c, f_d, f_e). f_a \<circ> f_b \<circ> f_c \<circ> f_d \<circ> f_e) ` set sequences =
     (\<lambda>m cubelets. map (apply_matrix m) cubelets) ` set cube_rotation_group \<and>
   (\<exists>os. generate_rotations l_piece = Inr os \<and>
      Inr ` set os =
        (\<lambda>m. translate_sorted (map (apply_matrix m) l_piece)) ` set cube_rotation_group)"
  using sequences_reach_rotation_group [of l_piece] by (simp add: l_piece_def)

text \<open>
  C8. For a piece of at least one cell, no cell listed twice, \<open>generate_rotations\<close>
  returns between 1 and 24 orientations, no two of them equal as lists and no two of
  them equal as sets of cells.
\<close>

theorem orientation_count:
  "piece \<noteq> [] \<Longrightarrow> distinct piece \<Longrightarrow>
   \<exists>os. generate_rotations piece = Inr os \<and> 1 \<le> length os \<and> length os \<le> 24 \<and>
        distinct os \<and> distinct (map set os)"
proof -
  assume ne: "piece \<noteq> []" and d: "distinct piece"
  from generate_rotations_result [OF ne] obtain os where
    os: "generate_rotations piece = Inr os"
        "set os = (\<lambda>s. canonical (compose5 s piece)) ` set sequences"
        "distinct os"
    by blast
  have "set os = (\<lambda>m. canonical (act m piece)) ` set cube_rotation_group"
    by (simp add: os(2) canonical_images)
  then have "card (set os) \<le> card (set cube_rotation_group)"
    by (simp add: card_image_le)
  also have "\<dots> \<le> 24"
    using card_length [of cube_rotation_group] by (simp add: length_cube_rotation_group)
  finally have le: "length os \<le> 24"
    using os(3) by (simp add: distinct_card)
  have "sequences \<noteq> []"
    using length_sequences by auto
  then have "set os \<noteq> {}" by (simp add: os(2))
  then have ge: "1 \<le> length os" by (cases os) auto
  have sd: "sorted orient \<and> distinct orient" if "orient \<in> set os" for orient
  proof -
    from that os(2) obtain s where "s \<in> set sequences" "orient = canonical (compose5 s piece)"
      by auto
    then show ?thesis
      using canonical_sorted canonical_distinct compose5_distinct d by simp
  qed
  have "inj_on set (set os)"
  proof (rule inj_onI)
    fix a b assume "a \<in> set os" "b \<in> set os" "set a = set b"
    then show "a = b"
      using sd sorted_distinct_set_unique by blast
  qed
  then have "distinct (map set os)"
    using os(3) by (simp add: distinct_map)
  with os(1,3) le ge show ?thesis by blast
qed

theorem orientation_count_witness:
  "t_piece \<noteq> [] \<and> distinct t_piece \<and>
   (\<exists>os. generate_rotations t_piece = Inr os \<and> 1 \<le> length os \<and> length os \<le> 24 \<and>
        distinct os \<and> distinct (map set os))"
  using orientation_count [of t_piece] by (simp add: t_piece_def)

subsection \<open>The dictionaries of the placement enumerator\<close>

lemma set_set_add: "set (set_add s var) = insert var (set s)"
  by (auto simp: set_add_def)

lemma distinct_set_add: "distinct s \<Longrightarrow> distinct (set_add s var)"
  by (simp add: set_add_def)

lemma set_add_nonempty: "set_add s var \<noteq> []"
  by (auto simp: set_add_def)

lemma keys_piece_add: "map fst (piece_add piece var d) = map fst d"
  by (induction d) (auto simp: piece_add_def)

lemma map_of_piece_add:
  "map_of (piece_add piece var d) k =
     (case map_of d k of None \<Rightarrow> None
      | Some s \<Rightarrow> Some (if k = piece then set_add s var else s))"
  by (induction d) (auto simp: piece_add_def)

lemma grp_piece_add:
  "k \<in> fst ` set d \<Longrightarrow>
   set (grp (piece_add piece var d) k) = set (grp d k) \<union> (if k = piece then {var} else {})"
  by (auto simp: grp_def map_of_piece_add set_set_add split: option.splits
      dest: map_of_eq_None_iff [THEN iffD1])

lemma grp_piece_add_other:
  "k \<notin> fst ` set d \<Longrightarrow> grp (piece_add piece var d) k = []"
  by (simp add: grp_def map_of_piece_add map_of_eq_None_iff [THEN iffD2])

lemma distinct_piece_add:
  "\<forall>e \<in> set d. distinct (snd e) \<Longrightarrow> \<forall>e \<in> set (piece_add piece var d). distinct (snd e)"
  by (auto simp: piece_add_def distinct_set_add)

lemma keys_cell_add: "fst ` set (cell_add cell var d) = insert cell (fst ` set d)"
  by (induction cell var d rule: cell_add.induct) auto

lemma distinct_keys_cell_add:
  "distinct (map fst d) \<Longrightarrow> distinct (map fst (cell_add cell var d))"
proof (induction cell var d rule: cell_add.induct)
  case (1 cell var)
  then show ?case by simp
next
  case (2 cell var k s d)
  then show ?case
    using keys_cell_add [of cell var d] by auto
qed

lemma map_of_cell_add:
  "map_of (cell_add cell var d) k =
     (if k = cell then Some (set_add (grp d cell) var) else map_of d k)"
  by (induction cell var d rule: cell_add.induct) (auto simp: grp_def)

lemma grp_cell_add_same: "grp (cell_add cell var d) cell = set_add (grp d cell) var"
  by (simp add: grp_def map_of_cell_add)

lemma grp_cell_add_other: "k \<noteq> cell \<Longrightarrow> grp (cell_add cell var d) k = grp d k"
  by (simp add: grp_def map_of_cell_add)

lemma grp_cell_add:
  "set (grp (cell_add cell var d) k) = set (grp d k) \<union> (if k = cell then {var} else {})"
  by (cases "k = cell") (simp_all add: grp_cell_add_same grp_cell_add_other set_set_add)

lemma groups_cell_add:
  "\<forall>e \<in> set d. snd e \<noteq> [] \<and> distinct (snd e) \<Longrightarrow>
   \<forall>e \<in> set (cell_add cell var d). snd e \<noteq> [] \<and> distinct (snd e)"
  by (induction cell var d rule: cell_add.induct) (auto simp: set_add_nonempty distinct_set_add)

lemma keys_fold_cell_add:
  "fst ` set (fold (\<lambda>cell d. cell_add cell var d) cells d) = set cells \<union> fst ` set d"
  by (induction cells arbitrary: d) (auto simp: keys_cell_add)

lemma distinct_keys_fold_cell_add:
  "distinct (map fst d) \<Longrightarrow> distinct (map fst (fold (\<lambda>cell d. cell_add cell var d) cells d))"
  by (induction cells arbitrary: d) (auto simp: distinct_keys_cell_add)

lemma grp_fold_cell_add:
  "set (grp (fold (\<lambda>cell d. cell_add cell var d) cells d) k) =
     set (grp d k) \<union> (if k \<in> set cells then {var} else {})"
  by (induction cells arbitrary: d) (auto simp: grp_cell_add)

lemma groups_fold_cell_add:
  "\<forall>e \<in> set d. snd e \<noteq> [] \<and> distinct (snd e) \<Longrightarrow>
   \<forall>e \<in> set (fold (\<lambda>cell d. cell_add cell var d) cells d). snd e \<noteq> [] \<and> distinct (snd e)"
proof (induction cells arbitrary: d)
  case Nil
  then show ?case by simp
next
  case (Cons c cells)
  from groups_cell_add [OF Cons.prems] have
    "\<forall>e \<in> set (cell_add c var d). snd e \<noteq> [] \<and> distinct (snd e)" .
  from Cons.IH [OF this] show ?case by simp
qed

subsection \<open>The invariant of the placement loop\<close>

lemma place_outside:
  "\<not> list_all in_volume (adjust anchor orient base) \<Longrightarrow>
   place st (anchor, piece, orient, base) = st"
  by (simp add: place_def)

lemma place_new:
  assumes "list_all in_volume (adjust anchor orient base)"
    and "map_of (placements st) (piece, adjust anchor orient base) = None"
  shows "placements (place st (anchor, piece, orient, base)) =
           placements st @ [((piece, adjust anchor orient base), var_counter st)]"
    and "placements_by_piece (place st (anchor, piece, orient, base)) =
           piece_add piece (var_counter st) (placements_by_piece st)"
    and "placements_by_cell (place st (anchor, piece, orient, base)) =
           fold (\<lambda>cell d. cell_add cell (var_counter st) d) (adjust anchor orient base)
             (placements_by_cell st)"
    and "var_counter (place st (anchor, piece, orient, base)) = var_counter st + 1"
  using assms by (cases anchor; simp add: place_def Let_def)+

lemma place_old:
  assumes "list_all in_volume (adjust anchor orient base)"
    and "map_of (placements st) (piece, adjust anchor orient base) = Some var"
  shows "placements (place st (anchor, piece, orient, base)) = placements st"
    and "placements_by_piece (place st (anchor, piece, orient, base)) =
           piece_add piece var (placements_by_piece st)"
    and "placements_by_cell (place st (anchor, piece, orient, base)) =
           fold (\<lambda>cell d. cell_add cell var d) (adjust anchor orient base)
             (placements_by_cell st)"
    and "var_counter (place st (anchor, piece, orient, base)) = var_counter st"
  using assms by (simp_all add: place_def Let_def)

lemma inv_initial: "inv initial_state"
  by (auto simp: inv_def initial_state_def grp_def piece_vars_def cell_vars_def comp_def
      map_of_eq_None_iff [THEN iffD2] split: option.splits dest: map_of_SomeD)

lemma piece_vars_append:
  "piece_vars (P @ [((piece, cells), var)]) k =
     piece_vars P k \<union> (if k = piece then {var} else {})"
  by (auto simp: piece_vars_def)

lemma cell_vars_append:
  "cell_vars (P @ [((piece, cells), var)]) c =
     cell_vars P c \<union> (if c \<in> set cells then {var} else {})"
  by (auto simp: cell_vars_def)

lemma inv_piece_keys: "inv st \<Longrightarrow> fst ` set (placements_by_piece st) = {0 ..< 7}"
proof -
  assume "inv st"
  then have "map fst (placements_by_piece st) = [0 ..< 7]" by (simp add: inv_def)
  then have "set (map fst (placements_by_piece st)) = set [0 ..< 7]" by (rule arg_cong)
  then show ?thesis by simp
qed

lemma grp_no_key: "k \<notin> fst ` set d \<Longrightarrow> grp d k = []"
  by (simp add: grp_def map_of_eq_None_iff [THEN iffD2])

lemma inv_cell_vars:
  "inv st \<Longrightarrow> set (grp (placements_by_cell st) c) = cell_vars (placements st) c"
  unfolding inv_def by blast

lemma inv_piece_vars:
  "inv st \<Longrightarrow> set (grp (placements_by_piece st) k) = piece_vars (placements st) k"
  unfolding inv_def by blast

lemma inv_place_new:
  assumes i: "inv st" and p: "piece < 7"
    and v: "list_all in_volume (adjust anchor orient base)"
    and n: "map_of (placements st) (piece, adjust anchor orient base) = None"
  shows "inv (place st (anchor, piece, orient, base))"
proof -
  let ?adj = "adjust anchor orient base"
  let ?st = "place st (anchor, piece, orient, base)"
  note new = place_new [OF v n]
  from n have fresh: "(piece, ?adj) \<notin> fst ` set (placements st)"
    by (simp add: map_of_eq_None_iff)
  from i have c1: "1 \<le> var_counter st" by (simp add: inv_def)
  have 1: "1 \<le> var_counter ?st" using c1 by (simp add: new)
  have 2: "distinct (map fst (placements ?st))"
    using i fresh by (simp add: new inv_def)
  have 3: "map snd (placements ?st) = [1 .. var_counter ?st - 1]"
    using i c1 upto_rec2 [of 1 "var_counter st"] by (simp add: new inv_def)
  have 4: "\<forall>k \<in> fst ` set (placements ?st). fst k < 7 \<and> list_all in_volume (snd k)"
    using i p v by (auto simp: new inv_def)
  have 5: "map fst (placements_by_piece ?st) = [0 ..< 7]"
    using i by (simp add: new keys_piece_add inv_def)
  have 6: "set (grp (placements_by_piece ?st) k) = piece_vars (placements ?st) k" for k
  proof (cases "k \<in> fst ` set (placements_by_piece st)")
    case True
    from i have "set (grp (placements_by_piece st) k) = piece_vars (placements st) k"
      by (rule inv_piece_vars)
    then show ?thesis
      by (simp add: new grp_piece_add [OF True] piece_vars_append)
  next
    case False
    with inv_piece_keys [OF i] p have "k \<noteq> piece" by auto
    moreover from i have "set (grp (placements_by_piece st) k) = piece_vars (placements st) k"
      by (rule inv_piece_vars)
    ultimately show ?thesis
      using False by (simp add: new grp_piece_add_other grp_no_key piece_vars_append)
  qed
  have 7: "\<forall>e \<in> set (placements_by_piece ?st). distinct (snd e)"
  proof -
    from i have "\<forall>e \<in> set (placements_by_piece st). distinct (snd e)"
      by (simp add: inv_def)
    from distinct_piece_add [OF this] show ?thesis by (simp add: new)
  qed
  have 8: "distinct (map fst (placements_by_cell ?st))"
    using i by (simp add: new distinct_keys_fold_cell_add inv_def)
  have 9: "set (grp (placements_by_cell ?st) c) = cell_vars (placements ?st) c" for c
    by (simp add: new grp_fold_cell_add cell_vars_append inv_cell_vars [OF i])
  have 10: "\<forall>e \<in> set (placements_by_cell ?st). snd e \<noteq> [] \<and> distinct (snd e)"
  proof -
    from i have "\<forall>e \<in> set (placements_by_cell st). snd e \<noteq> [] \<and> distinct (snd e)"
      by (simp add: inv_def)
    from groups_fold_cell_add [OF this] show ?thesis by (simp add: new)
  qed
  show ?thesis
    unfolding inv_def using 1 2 3 4 5 6 7 8 9 10 by blast
qed

lemma inv_place_old:
  assumes i: "inv st" and p: "piece < 7"
    and v: "list_all in_volume (adjust anchor orient base)"
    and n: "map_of (placements st) (piece, adjust anchor orient base) = Some var"
  shows "inv (place st (anchor, piece, orient, base))"
proof -
  let ?adj = "adjust anchor orient base"
  let ?st = "place st (anchor, piece, orient, base)"
  note old = place_old [OF v n]
  from n have mem: "((piece, ?adj), var) \<in> set (placements st)"
    by (rule map_of_SomeD)
  then have pv: "var \<in> piece_vars (placements st) piece"
    by (auto simp: piece_vars_def)
  from mem have cv: "c \<in> set ?adj \<Longrightarrow> var \<in> cell_vars (placements st) c" for c
    by (auto simp: cell_vars_def)
  have 1: "1 \<le> var_counter ?st" using i by (simp add: old inv_def)
  have 2: "distinct (map fst (placements ?st))" using i by (simp add: old inv_def)
  have 3: "map snd (placements ?st) = [1 .. var_counter ?st - 1]"
    using i by (simp add: old inv_def)
  have 4: "\<forall>k \<in> fst ` set (placements ?st). fst k < 7 \<and> list_all in_volume (snd k)"
    using i by (simp add: old inv_def)
  have 5: "map fst (placements_by_piece ?st) = [0 ..< 7]"
    using i by (simp add: old keys_piece_add inv_def)
  have 6: "set (grp (placements_by_piece ?st) k) = piece_vars (placements ?st) k" for k
  proof (cases "k \<in> fst ` set (placements_by_piece st)")
    case True
    from i have "set (grp (placements_by_piece st) k) = piece_vars (placements st) k"
      by (rule inv_piece_vars)
    then show ?thesis
      using pv by (auto simp: old grp_piece_add [OF True])
  next
    case False
    moreover from i have "set (grp (placements_by_piece st) k) = piece_vars (placements st) k"
      by (rule inv_piece_vars)
    ultimately show ?thesis
      by (simp add: old grp_piece_add_other grp_no_key)
  qed
  have 7: "\<forall>e \<in> set (placements_by_piece ?st). distinct (snd e)"
  proof -
    from i have "\<forall>e \<in> set (placements_by_piece st). distinct (snd e)"
      by (simp add: inv_def)
    from distinct_piece_add [OF this] show ?thesis by (simp add: old)
  qed
  have 8: "distinct (map fst (placements_by_cell ?st))"
    using i by (simp add: old distinct_keys_fold_cell_add inv_def)
  have 9: "set (grp (placements_by_cell ?st) c) = cell_vars (placements ?st) c" for c
  proof -
    from i have "set (grp (placements_by_cell st) c) = cell_vars (placements st) c"
      by (rule inv_cell_vars)
    then show ?thesis
      using cv [of c] by (auto simp: old grp_fold_cell_add)
  qed
  have 10: "\<forall>e \<in> set (placements_by_cell ?st). snd e \<noteq> [] \<and> distinct (snd e)"
  proof -
    from i have "\<forall>e \<in> set (placements_by_cell st). snd e \<noteq> [] \<and> distinct (snd e)"
      by (simp add: inv_def)
    from groups_fold_cell_add [OF this] show ?thesis by (simp add: old)
  qed
  show ?thesis
    unfolding inv_def using 1 2 3 4 5 6 7 8 9 10 by blast
qed

lemma inv_place:
  assumes "inv st" "piece < 7"
  shows "inv (place st (anchor, piece, orient, base))"
proof (cases "list_all in_volume (adjust anchor orient base)")
  case False
  then show ?thesis using assms(1) by (simp add: place_outside)
next
  case True
  show ?thesis
  proof (cases "map_of (placements st) (piece, adjust anchor orient base)")
    case None
    from inv_place_new [OF assms True None] show ?thesis .
  next
    case (Some var)
    from inv_place_old [OF assms True Some] show ?thesis .
  qed
qed

lemma iterations_piece: "(anchor, piece, orient, base) \<in> set (iterations orients coords) \<Longrightarrow> piece < 7"
  by (auto simp: iterations_def)

lemma inv_fold:
  "inv st \<Longrightarrow> \<forall>it \<in> set its. fst (snd it) < 7 \<Longrightarrow> inv (fold (\<lambda>it st. place st it) its st)"
proof (induction its arbitrary: st)
  case Nil
  then show ?case by simp
next
  case (Cons it its)
  obtain anchor piece orient base where it: "it = (anchor, piece, orient, base)"
    by (cases it) auto
  with Cons.prems have "inv (place st it)" by (simp add: inv_place)
  with Cons show ?case by simp
qed

lemma inv_generate_placements:
  "generate_placements orients coords = Inr st \<Longrightarrow> inv st"
proof -
  assume g: "generate_placements orients coords = Inr st"
  have "\<forall>it \<in> set (iterations orients coords). fst (snd it) < 7"
    by (auto dest: iterations_piece)
  from inv_fold [OF inv_initial this] g show ?thesis
    by (simp add: generate_placements_def split: if_splits)
qed

subsection \<open>Every fitting placement is recorded\<close>

lemma set_iterations:
  "set (iterations orients coords) =
     {(anchor, piece, orient, base).
        anchor \<in> set coords \<and> piece < 7 \<and> orient \<in> set (orients ! piece) \<and> base \<in> set orient}"
  by (auto simp: iterations_def image_iff)

lemma keys_place_mono:
  "fst ` set (placements st) \<subseteq> fst ` set (placements (place st it))"
proof -
  obtain anchor piece orient base where it: "it = (anchor, piece, orient, base)"
    by (cases it) auto
  show ?thesis
  proof (cases "list_all in_volume (adjust anchor orient base)")
    case False
    then show ?thesis by (simp add: it place_outside)
  next
    case True
    show ?thesis
    proof (cases "map_of (placements st) (piece, adjust anchor orient base)")
      case None
      from place_new(1) [OF True None] show ?thesis by (auto simp: it)
    next
      case (Some var)
      from place_old(1) [OF True Some] show ?thesis by (simp add: it)
    qed
  qed
qed

lemma key_after_place:
  assumes "list_all in_volume (adjust anchor orient base)"
  shows "(piece, adjust anchor orient base) \<in>
           fst ` set (placements (place st (anchor, piece, orient, base)))"
proof (cases "map_of (placements st) (piece, adjust anchor orient base)")
  case None
  from place_new(1) [OF assms None] show ?thesis by (simp add: image_iff)
next
  case (Some var)
  from map_of_SomeD [OF Some] place_old(1) [OF assms Some] show ?thesis
    by (force simp: image_iff)
qed

lemma keys_fold_mono:
  "fst ` set (placements st) \<subseteq> fst ` set (placements (fold (\<lambda>it st. place st it) its st))"
proof (induction its arbitrary: st)
  case Nil
  then show ?case by simp
next
  case (Cons it its)
  from keys_place_mono [of st it] Cons.IH [of "place st it"] show ?case by auto
qed

lemma key_after_fold:
  assumes "(anchor, piece, orient, base) \<in> set its"
    and "list_all in_volume (adjust anchor orient base)"
  shows "(piece, adjust anchor orient base) \<in>
           fst ` set (placements (fold (\<lambda>it st. place st it) its st))"
  using assms(1)
proof (induction its arbitrary: st)
  case Nil
  then show ?case by simp
next
  case (Cons it its)
  show ?case
  proof (cases "it = (anchor, piece, orient, base)")
    case True
    from key_after_place [OF assms(2), of piece st]
      keys_fold_mono [of "place st it" its] True
    show ?thesis by auto
  next
    case False
    with Cons.prems have "(anchor, piece, orient, base) \<in> set its" by simp
    from Cons.IH [OF this] show ?thesis by simp
  qed
qed

lemma placement_enumerated:
  assumes "generate_placements orients coords = Inr st"
    and "anchor \<in> set coords" "piece < 7" "orient \<in> set (orients ! piece)" "base \<in> set orient"
    and "list_all in_volume (adjust anchor orient base)"
  shows "(piece, adjust anchor orient base) \<in> fst ` set (placements st)"
proof -
  from assms(2-5) have "(anchor, piece, orient, base) \<in> set (iterations orients coords)"
    by (simp add: set_iterations)
  from key_after_fold [OF this assms(6), of initial_state] assms(1) show ?thesis
    by (simp add: generate_placements_def split: if_splits)
qed

subsection \<open>The fixed configuration\<close>

lemma rotations_of_all_result:
  "\<forall>piece \<in> set ps. piece \<noteq> [] \<Longrightarrow>
   \<exists>oss. rotations_of_all ps = Inr oss \<and> length oss = length ps \<and>
         (\<forall>i < length ps. generate_rotations (ps ! i) = Inr (oss ! i))"
proof (induction ps)
  case Nil
  then show ?case by simp
next
  case (Cons p ps)
  from Cons.prems have "p \<noteq> []" by simp
  from generate_rotations_result [OF this] obtain os where os: "generate_rotations p = Inr os"
    by blast
  from Cons obtain oss where oss: "rotations_of_all ps = Inr oss" "length oss = length ps"
    "\<forall>i < length ps. generate_rotations (ps ! i) = Inr (oss ! i)"
    by auto
  have "\<forall>i < length (p # ps). generate_rotations ((p # ps) ! i) = Inr ((os # oss) ! i)"
    using os oss(3) by (auto simp: nth_Cons split: nat.splits)
  then show ?case using os oss(1,2) by simp
qed

lemma length_pieces: "length pieces = 7"
  by (simp add: pieces_def)

lemma pieces_nonempty: "\<forall>piece \<in> set pieces. piece \<noteq> []"
  by (simp add: pieces_def z_piece_def p_piece_def t_piece_def b_piece_def a_piece_def
      l_piece_def v_piece_def)

lemma orientations_result:
  "\<exists>os. orientations = Inr os \<and> length os = 7 \<and>
        (\<forall>i < 7. generate_rotations (pieces ! i) = Inr (os ! i))"
  using rotations_of_all_result [OF pieces_nonempty]
  by (simp add: orientations_def length_pieces)

lemma set_coordinates: "set coordinates = {c. in_volume c}"
proof -
  have "x \<in> set [0..2] \<longleftrightarrow> 0 \<le> x \<and> x < 3" for x :: int
    by auto
  then show ?thesis
    by (auto simp: coordinates_def in_volume_def simp del: set_upto)
qed

lemma coordinates_nonempty: "coordinates \<noteq> []"
proof -
  have "(0, 0, 0) \<in> set coordinates"
    by (simp add: set_coordinates in_volume_def)
  then show ?thesis by auto
qed

lemma soma_state_result:
  "\<exists>os st. orientations = Inr os \<and> length os = 7 \<and>
     (\<forall>i < 7. generate_rotations (pieces ! i) = Inr (os ! i)) \<and>
     generate_placements os coordinates = Inr st \<and> soma_state = Inr st"
proof -
  from orientations_result obtain os where os: "orientations = Inr os" "length os = 7"
    "\<forall>i < 7. generate_rotations (pieces ! i) = Inr (os ! i)"
    by blast
  obtain st where st: "generate_placements os coordinates = Inr st"
    using os(2) by (simp add: generate_placements_def)
  then have "soma_state = Inr st" by (simp add: soma_state_def os(1))
  with os st show ?thesis by blast
qed

lemma orientation_available:
  assumes "generate_rotations piece = Inr os" "s \<in> set sequences"
  shows "canonical (compose5 s piece) \<in> set os"
proof -
  from assms(1) have "piece \<noteq> []"
    using generate_rotations_empty by auto
  from generate_rotations_result [OF this] assms show ?thesis by auto
qed

lemma set_adjust:
  "set (adjust (a0, a1, a2) orient (b0, b1, b2)) =
     (\<lambda>(o0, o1, o2). (a0 + o0 - b0, a1 + o1 - b1, a2 + o2 - b2)) ` set orient"
  by (simp add: adjust_def)

lemma inv_keys_vars:
  assumes "inv st" "(key, var) \<in> set (placements st)" "(key', var') \<in> set (placements st)"
  shows "key = key' \<longleftrightarrow> var = var'"
proof -
  from assms(1) have "distinct (map snd (placements st))" by (simp add: inv_def)
  then have s: "inj_on snd (set (placements st))" by (simp add: distinct_map)
  from assms(1) have "distinct (map fst (placements st))" by (simp add: inv_def)
  then have f: "inj_on fst (set (placements st))" by (simp add: distinct_map)
  from inj_onD [OF s, of "(key, var)" "(key', var')"] inj_onD [OF f, of "(key, var)" "(key', var')"]
    assms(2,3) show ?thesis by auto
qed

lemma inv_vars_range: "inv st \<Longrightarrow> snd ` set (placements st) = {1 .. num_vars st}"
proof -
  assume "inv st"
  then have "map snd (placements st) = [1 .. var_counter st - 1]" by (simp add: inv_def)
  then have "set (map snd (placements st)) = set [1 .. var_counter st - 1]" by (rule arg_cong)
  then show ?thesis by (simp add: num_vars_def)
qed

lemma transform_sequences:
  "(identity, identity, identity, identity, identity) \<in> set sequences"
  "(identity, identity, identity, identity, rotate_z) \<in> set sequences"
  "(identity, identity, identity, rotate_z, rotate_z) \<in> set sequences"
  "(identity, identity, rotate_z, rotate_z, rotate_z) \<in> set sequences"
  by (simp_all add: set_sequences transforms_def)

lemma v_orientations:
  "canonical (compose5 (identity, identity, identity, identity, identity) v_piece) =
     [(0, 0, 0), (0, 1, 0), (1, 0, 0)]"
  "canonical (compose5 (identity, identity, identity, identity, rotate_z) v_piece) =
     [(0, 0, 0), (1, 0, 0), (1, 1, 0)]"
  "canonical (compose5 (identity, identity, identity, rotate_z, rotate_z) v_piece) =
     [(0, 0, 0), (1, - 1, 0), (1, 0, 0)]"
  "canonical (compose5 (identity, identity, rotate_z, rotate_z, rotate_z) v_piece) =
     [(0, 0, 0), (0, 1, 0), (1, 1, 0)]"
  by (simp_all add: compose5_def identity_def rotate_z_def v_piece_def canonical_def shift_def)

lemma list_all_adjust:
  "list_all P (adjust (a0, a1, a2) orient (b0, b1, b2)) \<longleftrightarrow>
   (\<forall>(o0, o1, o2) \<in> set orient. P (a0 + o0 - b0, a1 + o1 - b1, a2 + o2 - b2))"
  by (auto simp: list_all_iff set_adjust)

lemma cell_covered_by_v:
  assumes "in_volume c"
  shows "\<exists>s \<in> set sequences. \<exists>base \<in> set (canonical (compose5 s v_piece)).
           list_all in_volume (adjust c (canonical (compose5 s v_piece)) base) \<and>
           c \<in> set (adjust c (canonical (compose5 s v_piece)) base)"
proof -
  obtain x y z where c: "c = (x, y, z)" by (cases c) auto
  with assms have r: "0 \<le> x" "x < 3" "0 \<le> y" "y < 3" "0 \<le> z" "z < 3"
    by (simp_all add: in_volume_def)
  consider "x \<le> 1 \<and> y \<le> 1" | "1 < x \<and> y \<le> 1" | "1 < x \<and> 1 < y" | "x \<le> 1 \<and> 1 < y"
    by linarith
  then show ?thesis
  proof cases
    case 1
    with r have "list_all in_volume (adjust c [(0, 0, 0), (0, 1, 0), (1, 0, 0)] (0, 0, 0)) \<and>
        c \<in> set (adjust c [(0, 0, 0), (0, 1, 0), (1, 0, 0)] (0, 0, 0))"
      by (simp add: c list_all_adjust set_adjust in_volume_def)
    then show ?thesis
      using transform_sequences(1) v_orientations(1)
      by (metis list.set_intros(1))
  next
    case 2
    with r have "list_all in_volume (adjust c [(0, 0, 0), (1, 0, 0), (1, 1, 0)] (1, 0, 0)) \<and>
        c \<in> set (adjust c [(0, 0, 0), (1, 0, 0), (1, 1, 0)] (1, 0, 0))"
      by (simp add: c list_all_adjust set_adjust in_volume_def)
    then show ?thesis
      using transform_sequences(2) v_orientations(2)
      by (metis list.set_intros(1,2))
  next
    case 3
    with r have "list_all in_volume (adjust c [(0, 0, 0), (1, - 1, 0), (1, 0, 0)] (1, 0, 0)) \<and>
        c \<in> set (adjust c [(0, 0, 0), (1, - 1, 0), (1, 0, 0)] (1, 0, 0))"
      by (simp add: c list_all_adjust set_adjust in_volume_def)
    then show ?thesis
      using transform_sequences(3) v_orientations(3)
      by (metis list.set_intros(1,2))
  next
    case 4
    with r have "list_all in_volume (adjust c [(0, 0, 0), (0, 1, 0), (1, 1, 0)] (0, 1, 0)) \<and>
        c \<in> set (adjust c [(0, 0, 0), (0, 1, 0), (1, 1, 0)] (0, 1, 0))"
      by (simp add: c list_all_adjust set_adjust in_volume_def)
    then show ?thesis
      using transform_sequences(4) v_orientations(4)
      by (metis list.set_intros(1,2))
  qed
qed

lemma piece_fits:
  assumes "piece \<in> set pieces"
  shows "(0, 0, 0) \<in> set (canonical (compose5 (identity, identity, identity, identity, identity) piece)) \<and>
         list_all in_volume
           (adjust (0, 0, 0)
              (canonical (compose5 (identity, identity, identity, identity, identity) piece))
              (0, 0, 0))"
  using assms
  by (auto simp: pieces_def z_piece_def p_piece_def t_piece_def b_piece_def a_piece_def
      l_piece_def v_piece_def compose5_def identity_def canonical_def shift_def
      list_all_adjust in_volume_def)

lemma grp_entry: "distinct (map fst d) \<Longrightarrow> (k, vs) \<in> set d \<Longrightarrow> grp d k = vs"
  by (simp add: grp_def)

lemma soma_key:
  assumes "\<forall>i < 7. generate_rotations (pieces ! i) = Inr (os ! i)"
    and "generate_placements os coordinates = Inr st"
    and "piece < 7" "s \<in> set sequences"
    and "base \<in> set (canonical (compose5 s (pieces ! piece)))"
    and "in_volume anchor"
    and "list_all in_volume (adjust anchor (canonical (compose5 s (pieces ! piece))) base)"
  shows "(piece, adjust anchor (canonical (compose5 s (pieces ! piece))) base)
           \<in> fst ` set (placements st)"
proof -
  from assms(1,3) have "generate_rotations (pieces ! piece) = Inr (os ! piece)" by simp
  from orientation_available [OF this assms(4)]
  have o: "canonical (compose5 s (pieces ! piece)) \<in> set (os ! piece)" .
  from assms(6) have a: "anchor \<in> set coordinates" by (simp add: set_coordinates)
  from placement_enumerated [OF assms(2) a assms(3) o assms(5) assms(7)] show ?thesis .
qed

lemma soma_piece_has_placement:
  assumes "\<forall>i < 7. generate_rotations (pieces ! i) = Inr (os ! i)"
    and "generate_placements os coordinates = Inr st" and "piece < 7"
  shows "piece_vars (placements st) piece \<noteq> {}"
proof -
  from assms(3) have "pieces ! piece \<in> set pieces" by (simp add: length_pieces)
  from piece_fits [OF this] soma_key [OF assms(1,2,3) transform_sequences(1), of "(0, 0, 0)" "(0, 0, 0)"]
  obtain cells where "(piece, cells) \<in> fst ` set (placements st)"
    by (auto simp: in_volume_def)
  then show ?thesis by (force simp: piece_vars_def)
qed

lemma soma_cell_covered:
  assumes "\<forall>i < 7. generate_rotations (pieces ! i) = Inr (os ! i)"
    and "generate_placements os coordinates = Inr st" and "in_volume c"
  shows "cell_vars (placements st) c \<noteq> {}"
proof -
  have v: "pieces ! 6 = v_piece" by (simp add: pieces_def)
  from cell_covered_by_v [OF assms(3)] obtain s base where
    s: "s \<in> set sequences" "base \<in> set (canonical (compose5 s v_piece))"
       "list_all in_volume (adjust c (canonical (compose5 s v_piece)) base)"
       "c \<in> set (adjust c (canonical (compose5 s v_piece)) base)"
    by blast
  have "(6, adjust c (canonical (compose5 s v_piece)) base) \<in> fst ` set (placements st)"
    using soma_key [OF assms(1,2) _ s(1), of 6 base c] s(2,3) assms(3) by (simp add: v)
  then obtain var where
    "((6, adjust c (canonical (compose5 s v_piece)) base), var) \<in> set (placements st)"
    by force
  with s(4) show ?thesis by (auto simp: cell_vars_def)
qed

lemma exactly_one_literals:
  assumes "clause \<in> set (exactly_one vs)"
  shows "clause \<noteq> [] \<and> (\<forall>lit \<in> set clause. lit \<in> set vs \<or> - lit \<in> set vs)"
proof -
  from assms have ne: "vs \<noteq> []" by (auto simp: exactly_one_def)
  from assms exactly_one_pairs [OF ne] consider "clause = vs"
    | i j where "(i, j) \<in> set (index_pairs (length vs))" "clause = [- (vs ! i), - (vs ! j)]"
    by auto
  then show ?thesis
  proof cases
    case 1
    with ne show ?thesis by simp
  next
    case 2
    then have "i < length vs" "j < length vs" by (auto simp: set_index_pairs)
    with 2(2) show ?thesis by simp
  qed
qed

lemma set_encode_groups:
  "set (encode_groups pgs cgs) = (\<Union>g \<in> set pgs \<union> set cgs. set (exactly_one g))"
  by (auto simp: encode_groups_def)

lemma length_coordinates: "length coordinates = 27"
  by (simp add: coordinates_def upto_rec1)

lemma distinct_coordinates: "distinct coordinates"
  by (simp add: coordinates_def upto_rec1)

lemma soma_v_placement:
  assumes "\<forall>i < 7. generate_rotations (pieces ! i) = Inr (os ! i)"
  shows "[(0, 0, 0), (0, 1, 0), (1, 0, 0)] \<in> set (os ! 6)"
proof -
  from assms have "generate_rotations (pieces ! 6) = Inr (os ! 6)" by simp
  from orientation_available [OF this transform_sequences(1)] show ?thesis
    by (simp add: pieces_def v_orientations(1))
qed

lemma v_adjusted:
  "adjust (0, 0, 0) [(0, 0, 0), (0, 1, 0), (1, 0, 0)] (0, 0, 0) = [(0, 0, 0), (0, 1, 0), (1, 0, 0)]"
  "adjust (0, 1, 0) [(0, 0, 0), (0, 1, 0), (1, 0, 0)] (0, 1, 0) = [(0, 0, 0), (0, 1, 0), (1, 0, 0)]"
  "adjust (1, 0, 0) [(0, 0, 0), (0, 1, 0), (1, 0, 0)] (1, 0, 0) = [(0, 0, 0), (0, 1, 0), (1, 0, 0)]"
  by (simp_all add: adjust_def)

subsection \<open>The placement mapping\<close>

text \<open>
  Claim C6. The mapping \<open>placements\<close> that \<open>generate_placements\<close> returns binds every
  key once, its variables are \<open>1, \<dots>, num_vars\<close> in the order of insertion, so they are
  strictly positive, contiguous from 1 and fill \<open>{1, \<dots>, num_vars}\<close>; two entries have
  the same key exactly when they have the same variable; and whatever anchor and
  reference cell lead to a cell list that fits into the volume, that cell list is
  bound, with its piece, to exactly one variable.
\<close>

theorem placements_bijection:
  "generate_placements orients coords = Inr st \<Longrightarrow>
   distinct (map fst (placements st)) \<and>
   map snd (placements st) = [1 .. num_vars st] \<and>
   snd ` set (placements st) = {1 .. num_vars st} \<and>
   (\<forall>(key, var) \<in> set (placements st). \<forall>(key', var') \<in> set (placements st).
      key = key' \<longleftrightarrow> var = var') \<and>
   (\<forall>anchor \<in> set coords. \<forall>piece \<in> {0 ..< 7}.
      \<forall>orient \<in> set (orients ! piece). \<forall>base \<in> set orient.
        list_all in_volume (adjust anchor orient base) \<longrightarrow>
        (\<exists>!var. ((piece, adjust anchor orient base), var) \<in> set (placements st)))"
proof -
  assume g: "generate_placements orients coords = Inr st"
  from inv_generate_placements [OF g] have i: "inv st" .
  have 1: "distinct (map fst (placements st))" using i by (simp add: inv_def)
  have 2: "map snd (placements st) = [1 .. num_vars st]"
    using i by (simp add: inv_def num_vars_def)
  have 3: "snd ` set (placements st) = {1 .. num_vars st}" using i by (rule inv_vars_range)
  have 4: "\<forall>(key, var) \<in> set (placements st). \<forall>(key', var') \<in> set (placements st).
      key = key' \<longleftrightarrow> var = var'"
  proof (intro ballI, clarify)
    fix key var key' var'
    assume "(key, var) \<in> set (placements st)" "(key', var') \<in> set (placements st)"
    then show "key = key' \<longleftrightarrow> var = var'" by (rule inv_keys_vars [OF i])
  qed
  have 5: "\<exists>!var. ((piece, adjust anchor orient base), var) \<in> set (placements st)"
    if "anchor \<in> set coords" "piece \<in> {0 ..< 7}" "orient \<in> set (orients ! piece)"
      "base \<in> set orient" "list_all in_volume (adjust anchor orient base)"
    for anchor piece orient base
  proof -
    from that(2) have "piece < 7" by simp
    from placement_enumerated [OF g that(1) this that(3,4,5)]
    obtain var where v: "((piece, adjust anchor orient base), var) \<in> set (placements st)"
      by force
    show ?thesis
    proof (rule ex1I [of _ var])
      show "((piece, adjust anchor orient base), var) \<in> set (placements st)" by (rule v)
    next
      fix var' assume "((piece, adjust anchor orient base), var') \<in> set (placements st)"
      from inv_keys_vars [OF i this v] show "var' = var" by simp
    qed
  qed
  have 6: "\<forall>anchor \<in> set coords. \<forall>piece \<in> {0 ..< 7}.
      \<forall>orient \<in> set (orients ! piece). \<forall>base \<in> set orient.
        list_all in_volume (adjust anchor orient base) \<longrightarrow>
        (\<exists>!var. ((piece, adjust anchor orient base), var) \<in> set (placements st))"
    by (intro ballI impI) (rule 5)
  show ?thesis
    by (intro conjI) (fact 1 2 3 4 6)+
qed

theorem placements_bijection_witness:
  "\<exists>os st. orientations = Inr os \<and> generate_placements os coordinates = Inr st \<and>
     distinct (map fst (placements st)) \<and> map snd (placements st) = [1 .. num_vars st] \<and>
     adjust (0, 1, 0) [(0, 0, 0), (0, 1, 0), (1, 0, 0)] (0, 1, 0) =
       adjust (0, 0, 0) [(0, 0, 0), (0, 1, 0), (1, 0, 0)] (0, 0, 0) \<and>
     (\<exists>!var. ((6, adjust (0, 0, 0) [(0, 0, 0), (0, 1, 0), (1, 0, 0)] (0, 0, 0)), var)
        \<in> set (placements st))"
proof -
  from soma_state_result obtain os st where
    s: "orientations = Inr os" "\<forall>i < 7. generate_rotations (pieces ! i) = Inr (os ! i)"
       "generate_placements os coordinates = Inr st"
    by blast
  note b = placements_bijection [OF s(3)]
  note b1 = b [THEN conjunct1]
  note b2 = b [THEN conjunct2, THEN conjunct1]
  note b5 = b [THEN conjunct2, THEN conjunct2, THEN conjunct2, THEN conjunct2,
    THEN bspec, THEN bspec, THEN bspec, THEN bspec, THEN mp]
  have c: "(0, 0, 0) \<in> set coordinates" by (simp add: set_coordinates in_volume_def)
  have p: "(6::nat) \<in> {0 ..< 7}" by simp
  have m: "(0, 0, 0) \<in> set [(0, 0, 0), (0, 1, 0), (1, 0, 0 :: int)]" by simp
  have v: "list_all in_volume (adjust (0, 0, 0) [(0, 0, 0), (0, 1, 0), (1, 0, 0)] (0, 0, 0))"
    by (simp add: v_adjusted in_volume_def)
  note u = b5 [OF c p soma_v_placement [OF s(2)] m v]
  have e: "adjust (0, 1, 0) [(0, 0, 0), (0, 1, 0), (1, 0, 0)] (0, 1, 0) =
       adjust (0, 0, 0) [(0, 0, 0), (0, 1, 0), (1, 0, 0)] (0, 0, 0)"
    by (simp add: v_adjusted)
  show ?thesis
    by (intro exI conjI) (fact s(1) s(3) b1 b2 e u)+
qed

text \<open>
  Claim C7. Every cell of every key of the mapping \<open>placements\<close> that
  \<open>generate_placements\<close> returns has its three coordinates in \<open>[0, 3)\<close>.
\<close>

theorem placements_in_volume:
  "generate_placements orients coords = Inr st \<Longrightarrow>
   ((piece, cells), var) \<in> set (placements st) \<Longrightarrow> (c0, c1, c2) \<in> set cells \<Longrightarrow>
   0 \<le> c0 \<and> c0 < 3 \<and> 0 \<le> c1 \<and> c1 < 3 \<and> 0 \<le> c2 \<and> c2 < 3"
proof -
  assume g: "generate_placements orients coords = Inr st"
    and m: "((piece, cells), var) \<in> set (placements st)" and c: "(c0, c1, c2) \<in> set cells"
  from inv_generate_placements [OF g] have
    "\<forall>k \<in> fst ` set (placements st). fst k < 7 \<and> list_all in_volume (snd k)"
    by (simp add: inv_def)
  with m have "list_all in_volume cells" by force
  with c have "in_volume (c0, c1, c2)" by (simp add: list_all_iff)
  then show ?thesis by (simp add: in_volume_def)
qed

theorem placements_in_volume_witness:
  "\<exists>os st. orientations = Inr os \<and> generate_placements os coordinates = Inr st \<and>
     (\<exists>var. ((6, [(0, 0, 0), (0, 1, 0), (1, 0, 0)]), var) \<in> set (placements st)) \<and>
     (\<forall>((piece, cells), var) \<in> set (placements st). \<forall>(c0, c1, c2) \<in> set cells.
        0 \<le> c0 \<and> c0 < 3 \<and> 0 \<le> c1 \<and> c1 < 3 \<and> 0 \<le> c2 \<and> c2 < 3)"
proof -
  from soma_state_result obtain os st where
    s: "orientations = Inr os" "\<forall>i < 7. generate_rotations (pieces ! i) = Inr (os ! i)"
       "generate_placements os coordinates = Inr st"
    by blast
  have "(0, 0, 0) \<in> set coordinates" by (simp add: set_coordinates in_volume_def)
  from placement_enumerated [OF s(3) this _ soma_v_placement [OF s(2)], of "(0, 0, 0)"]
  have "(6, [(0, 0, 0), (0, 1, 0), (1, 0, 0)]) \<in> fst ` set (placements st)"
    by (simp add: v_adjusted in_volume_def)
  then have k: "\<exists>var. ((6, [(0, 0, 0), (0, 1, 0), (1, 0, 0)]), var) \<in> set (placements st)"
    by force
  have a: "\<forall>((piece, cells), var) \<in> set (placements st). \<forall>(c0, c1, c2) \<in> set cells.
        0 \<le> c0 \<and> c0 < 3 \<and> 0 \<le> c1 \<and> c1 < 3 \<and> 0 \<le> c2 \<and> c2 < 3"
  proof (intro ballI, clarify)
    fix piece cells var c0 c1 c2
    assume "((piece, cells), var) \<in> set (placements st)" "(c0, c1, c2) \<in> set cells"
    from placements_in_volume [OF s(3) this]
    show "0 \<le> c0 \<and> c0 < 3 \<and> 0 \<le> c1 \<and> c1 < 3 \<and> 0 \<le> c2 \<and> c2 < 3" .
  qed
  from s(1) s(3) k a show ?thesis
    by (intro exI [of _ os] exI [of _ st] conjI)
qed

end
